theory Spec2Isabelle
  imports Main "HOL-Library.Sublist"
begin

section \<open>Strings of the Python source\<close>

text \<open>
  A Python \<open>str\<close> is modelled as a \<open>string\<close> whose characters are read as the code
  points 0 to 255. The character classes below are the ones CPython uses on that range:
  \<open>str.isspace\<close> and the regular-expression class \<open>\s\<close> agree there, \<open>\d\<close> is the
  ten decimal digits, \<open>str.lower\<close> moves A-Z and the Latin-1 capitals down by 32, and
  \<open>str.splitlines\<close> breaks at eight characters.
\<close>

definition is_space :: "char \<Rightarrow> bool" where
  "is_space c \<longleftrightarrow> c \<in> {CHR 0x09, CHR 0x0A, CHR 0x0B, CHR 0x0C, CHR 0x0D,
                        CHR 0x1C, CHR 0x1D, CHR 0x1E, CHR 0x1F, CHR 0x20, CHR 0x85, CHR 0xA0}"

definition is_decimal :: "char \<Rightarrow> bool" where
  "is_decimal c \<longleftrightarrow> c \<in> set ''0123456789''"

definition is_linebreak :: "char \<Rightarrow> bool" where
  "is_linebreak c \<longleftrightarrow> c \<in> {CHR 0x0A, CHR 0x0B, CHR 0x0C, CHR 0x0D,
                            CHR 0x1C, CHR 0x1D, CHR 0x1E, CHR 0x85}"

definition lower_char :: "char \<Rightarrow> char" where
  "lower_char c =
     (let n = (of_char c :: nat)
      in if (65 \<le> n \<and> n \<le> 90) \<or> (192 \<le> n \<and> n \<le> 222 \<and> n \<noteq> 215)
         then char_of (n + 32) else c)"

definition lower :: "string \<Rightarrow> string" where
  "lower s = map lower_char s"

definition lstrip :: "string \<Rightarrow> string" where
  "lstrip s = dropWhile is_space s"

definition rstrip :: "string \<Rightarrow> string" where
  "rstrip s = rev (dropWhile is_space (rev s))"

definition strip :: "string \<Rightarrow> string" where
  "strip s = rstrip (lstrip s)"

text \<open>\<open>re.sub(r"\s+", " ", s)\<close>: every maximal run of whitespace becomes one blank.\<close>

function sub_ws :: "string \<Rightarrow> string" where
  "sub_ws [] = []"
| "sub_ws (c # cs) =
     (if is_space c then CHR '' '' # sub_ws (dropWhile is_space cs) else c # sub_ws cs)"
  by pat_completeness auto
termination
  by (relation "measure length") (auto simp: length_dropWhile_le less_Suc_eq_le)

text \<open>
  \<open>normalize(s)\<close>. The source's \<open>s or ""\<close> is the identity on a \<open>str\<close>; the callers
  pass \<open>x or ""\<close>, which is \<open>or_empty\<close> below.
\<close>

definition normalize_str :: "string \<Rightarrow> string" where
  "normalize_str s = lower (strip (sub_ws s))"

text \<open>Python truthiness of an \<open>Optional[str]\<close>, and the idioms \<open>x or ""\<close>, \<open>x or None\<close>,
  \<open>x or y\<close>.\<close>

definition truthy :: "string option \<Rightarrow> bool" where
  "truthy x = (case x of None \<Rightarrow> False | Some s \<Rightarrow> s \<noteq> [])"

definition or_empty :: "string option \<Rightarrow> string" where
  "or_empty x = (case x of None \<Rightarrow> [] | Some s \<Rightarrow> s)"

definition or_none :: "string option \<Rightarrow> string option" where
  "or_none x = (if truthy x then x else None)"

definition py_or :: "string option \<Rightarrow> string option \<Rightarrow> string option" where
  "py_or x y = (if truthy x then x else y)"

text \<open>\<open>sep in s\<close> and \<open>s.split(sep, 1)\<close>. The split returns one piece when the
  separator does not occur, two pieces otherwise.\<close>

fun str_contains :: "string \<Rightarrow> string \<Rightarrow> bool" where
  "str_contains sep [] = (sep = [])"
| "str_contains sep (c # cs) = (prefix sep (c # cs) \<or> str_contains sep cs)"

fun split_once :: "string \<Rightarrow> string \<Rightarrow> string list" where
  "split_once sep [] = [[]]"
| "split_once sep (c # cs) =
     (if prefix sep (c # cs) then [[], drop (length sep) (c # cs)]
      else (case split_once sep cs of
              [a, b] \<Rightarrow> [c # a, b]
            | _ \<Rightarrow> [c # cs]))"

definition replace_underscore :: "string \<Rightarrow> string" where
  "replace_underscore s = map (\<lambda>c. if c = CHR ''_'' then CHR '' '' else c) s"

section \<open>The two regular expressions\<close>

text \<open>
  Without \<open>re.MULTILINE\<close>, \<open>$\<close> matches at the end of the string and just before a
  newline that ends the string; \<open>.\<close> matches every character but the newline.
\<close>

definition at_dollar :: "string \<Rightarrow> bool" where
  "at_dollar r \<longleftrightarrow> r = [] \<or> r = [CHR 0x0A]"

text \<open>
  \<open>re.match(r"^cd\s*\d+$", seg, re.IGNORECASE)\<close>. Whitespace, digits and the end of
  the string exclude each other, so the greedy choices are the only ones.
\<close>

definition match_cd :: "string \<Rightarrow> bool" where
  "match_cd seg =
     (case seg of
        c # d # rest \<Rightarrow>
          (c = CHR ''c'' \<or> c = CHR ''C'') \<and> (d = CHR ''d'' \<or> d = CHR ''D'') \<and>
          (let r1 = dropWhile is_space rest
           in takeWhile is_decimal r1 \<noteq> [] \<and> at_dollar (dropWhile is_decimal r1))
      | _ \<Rightarrow> False)"

text \<open>
  The tail \<open>\s*(.+)$\<close> of the track-number pattern. A blank also matches \<open>.\<close>, so the
  matcher backtracks: \<open>\s*\<close> first takes all the whitespace and gives it back one
  character at a time until \<open>(.+)$\<close> succeeds. \<open>try_group t\<close> is \<open>(.+)$\<close> at \<open>t\<close>;
  \<open>group_tail rest j\<close> tries \<open>\s*\<close> with \<open>j\<close>, then \<open>j - 1\<close>, ... characters.
\<close>

definition try_group :: "string \<Rightarrow> string option" where
  "try_group t =
     (let g = takeWhile (\<lambda>c. c \<noteq> CHR 0x0A) t
      in if g \<noteq> [] \<and> at_dollar (dropWhile (\<lambda>c. c \<noteq> CHR 0x0A) t) then Some g else None)"

fun group_tail :: "string \<Rightarrow> nat \<Rightarrow> string option" where
  "group_tail rest 0 = try_group rest"
| "group_tail rest (Suc j) =
     (case try_group (drop (Suc j) rest) of
        Some g \<Rightarrow> Some g
      | None \<Rightarrow> group_tail rest j)"

text \<open>\<open>re.match(r"^\s*\d+\s*[-_.]\s*(.+)$", s)\<close>; the result is \<open>m.group(1)\<close>, or
  \<open>None\<close> when there is no match.\<close>

definition match_track :: "string \<Rightarrow> string option" where
  "match_track s =
     (let s1 = dropWhile is_space s;
          s2 = dropWhile is_decimal s1;
          s3 = dropWhile is_space s2
      in if takeWhile is_decimal s1 = [] then None
         else (case s3 of
                 [] \<Rightarrow> None
               | c # rest \<Rightarrow>
                   if c = CHR ''-'' \<or> c = CHR ''_'' \<or> c = CHR ''.''
                   then group_tail rest (length (takeWhile is_space rest))
                   else None))"

section \<open>Paths\<close>

text \<open>
  A \<open>pathlib\<close> POSIX path is its tuple of \<open>parts\<close>; an absolute path starts with the
  part \<open>"/"\<close> (or \<open>"//"\<close>, which POSIX keeps apart). \<open>relative_to\<close> raises \<open>ValueError\<close> unless the other path is a prefix
  with the same anchor. \<open>name\<close> is the last part (empty for the bare root), \<open>stem\<close> cuts
  the last suffix off with \<open>rfind\<close>, as CPython 3.4 to 3.13 does.
\<close>

type_synonym path = "string list"

datatype py_error = ValueError | TagReadError string

definition is_absolute :: "path \<Rightarrow> bool" where
  "is_absolute p = (case p of [] \<Rightarrow> False | a # _ \<Rightarrow> a = ''/'' \<or> a = ''//'')"

definition relative_to :: "path \<Rightarrow> path \<Rightarrow> py_error + path" where
  "relative_to p other =
     (if prefix other p \<and> is_absolute other = is_absolute p
      then Inr (drop (length other) p) else Inl ValueError)"

definition name_of :: "path \<Rightarrow> string" where
  "name_of p = (if p = [] \<or> p = [''/''] \<or> p = [''//''] then [] else last p)"

definition rfind :: "char \<Rightarrow> string \<Rightarrow> nat option" where
  "rfind c s =
     (if c \<in> set s then Some (length s - 1 - length (takeWhile (\<lambda>x. x \<noteq> c) (rev s)))
      else None)"

definition stem_of :: "path \<Rightarrow> string" where
  "stem_of p =
     (let name = name_of p
      in case rfind CHR ''.'' name of
           None \<Rightarrow> name
         | Some i \<Rightarrow> if 0 < i \<and> i < length name - 1 then take i name else name)"

section \<open>infer_from_path\<close>

text \<open>
  The tuple unpacking \<open>maybe_artist, maybe_title = stem_clean.split(" - ", 1)\<close> raises
  \<open>ValueError\<close> when the split has one piece; the model keeps that branch.
\<close>

definition infer_from_path ::
  "path \<Rightarrow> path \<Rightarrow> py_error + (string option \<times> string option \<times> string option)" where
  "infer_from_path path library_root =
     (let rel_parts = (case relative_to path library_root of
                         Inr ps \<Rightarrow> ps
                       | Inl _ \<Rightarrow> path);
          artist = (if length rel_parts \<ge> 1 then Some (rel_parts ! 0) else None);
          album = (if length rel_parts \<ge> 2
                   then (if length rel_parts \<ge> 3 \<and> match_cd (rel_parts ! 2)
                         then Some (rel_parts ! 1 @ '' '' @ rel_parts ! 2)
                         else Some (rel_parts ! 1))
                   else None);
          stem = stem_of path;
          stem_clean = replace_underscore stem;
          title = (case match_track stem_clean of
                     Some g \<Rightarrow> strip g
                   | None \<Rightarrow> strip stem_clean)
      in if str_contains '' - '' stem_clean \<and> \<not> truthy artist
         then (case split_once '' - '' stem_clean of
                 [maybe_artist, maybe_title] \<Rightarrow>
                   Inr (or_none (Some (strip maybe_artist)),
                        or_none (py_or (Some (strip maybe_title)) (Some title)),
                        or_none album)
               | _ \<Rightarrow> Inl ValueError)
         else Inr (or_none artist, or_none (Some title), or_none album))"

definition inferred_artist ::
  "py_error + (string option \<times> string option \<times> string option) \<Rightarrow> string option" where
  "inferred_artist r = (case r of Inr (a, t, al) \<Rightarrow> a | Inl e \<Rightarrow> None)"

definition inferred_title ::
  "py_error + (string option \<times> string option \<times> string option) \<Rightarrow> string option" where
  "inferred_title r = (case r of Inr (a, t, al) \<Rightarrow> t | Inl e \<Rightarrow> None)"

definition inferred_album ::
  "py_error + (string option \<times> string option \<times> string option) \<Rightarrow> string option" where
  "inferred_album r = (case r of Inr (a, t, al) \<Rightarrow> al | Inl e \<Rightarrow> None)"

section \<open>get_metadata\<close>

text \<open>
  The tag reader is outside the program. \<open>MutagenFile(path, easy=True)\<close> raises, returns
  \<open>None\<close>, or returns an object with \<open>tags\<close> (a mapping or \<open>None\<close>) and \<open>info\<close>.
  A tag value is a list of strings, a string, or something else. \<open>info_length\<close> is the
  outcome of the guarded statement
  \<open>if audio.info and hasattr(audio.info, "length"): duration = int(round(audio.info.length))\<close>:
  it raises, leaves the duration alone, or assigns the rounded number of seconds.
\<close>

datatype tag_value = TagList "string list" | TagStr string | TagOther

record audio_file =
  tags :: "(string \<rightharpoonup> tag_value) option"
  info_length :: "py_error + int option"

definition tags_or_empty :: "audio_file \<Rightarrow> (string \<rightharpoonup> tag_value)" where
  "tags_or_empty audio = (case tags audio of None \<Rightarrow> Map.empty | Some m \<Rightarrow> m)"

definition first :: "(string \<rightharpoonup> tag_value) \<Rightarrow> string \<Rightarrow> string option" where
  "first tgs key =
     (case tgs key of
        Some (TagList (x # xs)) \<Rightarrow> Some x
      | Some (TagStr s) \<Rightarrow> Some s
      | _ \<Rightarrow> None)"

definition get_metadata ::
  "(path \<Rightarrow> py_error + audio_file option) \<Rightarrow> path \<Rightarrow> path \<Rightarrow>
     py_error + (string option \<times> string option \<times> string option \<times> int option)" where
  "get_metadata MutagenFile path library_root =
     (let audio = (case MutagenFile path of Inl e \<Rightarrow> None | Inr a \<Rightarrow> a);
          title = (case audio of None \<Rightarrow> None | Some a \<Rightarrow> first (tags_or_empty a) ''title'');
          artist = (case audio of None \<Rightarrow> None | Some a \<Rightarrow> first (tags_or_empty a) ''artist'');
          album = (case audio of None \<Rightarrow> None | Some a \<Rightarrow> first (tags_or_empty a) ''album'');
          duration = (case audio of
                        None \<Rightarrow> None
                      | Some a \<Rightarrow> (case info_length a of Inl e \<Rightarrow> None | Inr d \<Rightarrow> d))
      in case infer_from_path path library_root of
           Inl e \<Rightarrow> Inl e
         | Inr (inf_artist, inf_title, inf_album) \<Rightarrow>
             Inr (if \<not> truthy artist then inf_artist else artist,
                  if \<not> truthy title then inf_title else title,
                  if \<not> truthy album then inf_album else album,
                  duration))"

section \<open>choose_best_result\<close>

text \<open>One entry of the JSON array that LRCLIB returns; a missing key and \<open>null\<close> are
  both \<open>None\<close>.\<close>

record candidate =
  trackName :: "string option"
  name :: "string option"
  artistName :: "string option"
  instrumental :: "bool option"
  syncedLyrics :: "string option"
  plainLyrics :: "string option"

definition r_title :: "candidate \<Rightarrow> string" where
  "r_title r = normalize_str (or_empty (py_or (py_or (trackName r) (name r)) (Some [])))"

definition r_artist :: "candidate \<Rightarrow> string" where
  "r_artist r = normalize_str (or_empty (py_or (artistName r) (Some [])))"

definition score_of :: "string \<Rightarrow> string \<Rightarrow> candidate \<Rightarrow> nat" where
  "score_of norm_title norm_artist r =
     (let title_match = (norm_title \<noteq> [] \<and> r_title r = norm_title);
          artist_match = (norm_artist \<noteq> [] \<and> r_artist r = norm_artist)
      in if title_match \<and> artist_match then 2
         else if title_match \<or> artist_match then 1
         else 0)"

text \<open>The \<open>for\<close> loop, with \<open>best\<close> as the state.\<close>

fun best_loop ::
  "string \<Rightarrow> string \<Rightarrow> (nat \<times> candidate) option \<Rightarrow> candidate list \<Rightarrow> (nat \<times> candidate) option" where
  "best_loop norm_title norm_artist best [] = best"
| "best_loop norm_title norm_artist best (r # rs) =
     (let score = score_of norm_title norm_artist r
      in best_loop norm_title norm_artist
           (case best of
              None \<Rightarrow> Some (score, r)
            | Some b \<Rightarrow> if score > fst b then Some (score, r) else best)
           rs)"

definition choose_best_result ::
  "candidate list \<Rightarrow> string option \<Rightarrow> string option \<Rightarrow> candidate option" where
  "choose_best_result results title artist =
     (case results of
        [] \<Rightarrow> None
      | r0 # rest \<Rightarrow>
          if \<not> truthy title \<and> \<not> truthy artist then Some r0
          else (let norm_title = normalize_str (or_empty title);
                    norm_artist = normalize_str (or_empty artist)
                in case best_loop norm_title norm_artist None results of
                     Some b \<Rightarrow> Some (snd b)
                   | None \<Rightarrow> Some r0))"

section \<open>fetch_lyrics_from_lrclib\<close>

text \<open>
  The HTTP exchange is outside the program: \<open>session_get q\<close> is what
  \<open>session.get\<close>, \<open>raise_for_status\<close> and \<open>resp.json()\<close> give for the query \<open>q\<close>,
  an exception or the decoded body. \<open>lyrics_of_best\<close> is the end of the function, from
  the test of \<open>instrumental\<close> on.
\<close>

datatype json_body = NotAList | ResultList "candidate list"

definition lyrics_of_best :: "candidate \<Rightarrow> string option \<times> bool" where
  "lyrics_of_best best =
     (if instrumental best = Some True then (None, False)
      else (let synced = or_empty (py_or (syncedLyrics best) (Some []));
                plain = or_empty (py_or (plainLyrics best) (Some []))
            in if strip synced \<noteq> [] then (Some synced, True)
               else if strip plain \<noteq> [] then (Some plain, False)
               else (None, False)))"

definition fetch_lyrics_from_lrclib ::
  "(string \<Rightarrow> py_error + json_body) \<Rightarrow> string option \<Rightarrow> string option \<Rightarrow> string option \<times> bool" where
  "fetch_lyrics_from_lrclib session_get artist title =
     (if \<not> truthy title \<and> \<not> truthy artist then (None, False)
      else (let q = (if truthy artist \<and> truthy title then or_empty artist @ '' '' @ or_empty title
                     else if truthy title then or_empty title
                     else or_empty artist)
            in case session_get q of
                 Inl e \<Rightarrow> (None, False)
               | Inr NotAList \<Rightarrow> (None, False)
               | Inr (ResultList results) \<Rightarrow>
                   if results = [] then (None, False)
                   else (case choose_best_result results title artist of
                           None \<Rightarrow> (None, False)
                         | Some best \<Rightarrow> lyrics_of_best best)))"

section \<open>make_unsynced_lrc\<close>

text \<open>\<open>str.splitlines()\<close>: a line ends at a line-break character, \<open>\r\n\<close> counts as
  one break, and a break at the very end opens no further line.\<close>

function splitlines :: "string \<Rightarrow> string list" where
  "splitlines [] = []"
| "splitlines (c # cs) =
     (let line = takeWhile (\<lambda>x. \<not> is_linebreak x) (c # cs)
      in case dropWhile (\<lambda>x. \<not> is_linebreak x) (c # cs) of
           [] \<Rightarrow> [line]
         | b # rest \<Rightarrow>
             line # splitlines (if b = CHR 0x0D \<and> rest \<noteq> [] \<and> hd rest = CHR 0x0A
                                then tl rest else rest))"
  by pat_completeness auto
termination
proof (relation "measure length", goal_cases)
  case 1
  show ?case by simp
next
  case (2 c cs line b rest)
  have "length (b # rest) \<le> length (c # cs)"
    using 2(2) length_dropWhile_le [of "\<lambda>x. \<not> is_linebreak x" "c # cs"] by simp
  then show ?case by (cases rest) auto
qed

text \<open>The loop that fills \<open>out_lines\<close>, and \<open>"\n".join\<close>.\<close>

fun stamp_loop :: "string list \<Rightarrow> string list \<Rightarrow> string list" where
  "stamp_loop out_lines [] = out_lines"
| "stamp_loop out_lines (line # ls) =
     stamp_loop (out_lines @ [if strip line \<noteq> [] then ''[00:00.00] '' @ line else []]) ls"

fun join :: "string \<Rightarrow> string list \<Rightarrow> string" where
  "join sep [] = []"
| "join sep [x] = x"
| "join sep (x # y # ys) = x @ sep @ join sep (y # ys)"

definition make_unsynced_lrc :: "string \<Rightarrow> string" where
  "make_unsynced_lrc plain_lyrics =
     rstrip (join [CHR 0x0A] (stamp_loop [] (splitlines plain_lyrics))) @ [CHR 0x0A]"

section \<open>The specification's notions\<close>

text \<open>
  The definitions of this section follow the wording of the specification, not the
  source; the theorems below compare the source with them.
\<close>

text \<open>
  Normalization for comparison: internal whitespace runs collapsed to single blanks,
  leading and trailing whitespace trimmed, capitals folded to small letters. The text is
  cut into its words (the maximal runs of non-whitespace), the words are joined by one
  blank, and every capital letter of the table is replaced by its small letter.
\<close>

definition spec_capitals :: string where
  "spec_capitals = ''ABCDEFGHIJKLMNOPQRSTUVWXYZ'' @
     [CHR 0xC0, CHR 0xC1, CHR 0xC2, CHR 0xC3, CHR 0xC4, CHR 0xC5, CHR 0xC6, CHR 0xC7,
      CHR 0xC8, CHR 0xC9, CHR 0xCA, CHR 0xCB, CHR 0xCC, CHR 0xCD, CHR 0xCE, CHR 0xCF,
      CHR 0xD0, CHR 0xD1, CHR 0xD2, CHR 0xD3, CHR 0xD4, CHR 0xD5, CHR 0xD6,
      CHR 0xD8, CHR 0xD9, CHR 0xDA, CHR 0xDB, CHR 0xDC, CHR 0xDD, CHR 0xDE]"

definition spec_smalls :: string where
  "spec_smalls = ''abcdefghijklmnopqrstuvwxyz'' @
     [CHR 0xE0, CHR 0xE1, CHR 0xE2, CHR 0xE3, CHR 0xE4, CHR 0xE5, CHR 0xE6, CHR 0xE7,
      CHR 0xE8, CHR 0xE9, CHR 0xEA, CHR 0xEB, CHR 0xEC, CHR 0xED, CHR 0xEE, CHR 0xEF,
      CHR 0xF0, CHR 0xF1, CHR 0xF2, CHR 0xF3, CHR 0xF4, CHR 0xF5, CHR 0xF6,
      CHR 0xF8, CHR 0xF9, CHR 0xFA, CHR 0xFB, CHR 0xFC, CHR 0xFD, CHR 0xFE]"

definition spec_fold_char :: "char \<Rightarrow> char" where
  "spec_fold_char c =
     (case map_of (zip spec_capitals spec_smalls) c of Some l \<Rightarrow> l | None \<Rightarrow> c)"

function spec_words :: "string \<Rightarrow> string list" where
  "spec_words [] = []"
| "spec_words (c # cs) =
     (if is_space c then spec_words cs
      else (c # takeWhile (\<lambda>x. \<not> is_space x) cs) #
           spec_words (dropWhile (\<lambda>x. \<not> is_space x) cs))"
  by pat_completeness auto
termination
  by (relation "measure length") (auto simp: length_dropWhile_le less_Suc_eq_le)

fun spec_unwords :: "string list \<Rightarrow> string" where
  "spec_unwords [] = []"
| "spec_unwords [w] = w"
| "spec_unwords (w # v # vs) = w @ '' '' @ spec_unwords (v # vs)"

definition spec_normalize :: "string \<Rightarrow> string" where
  "spec_normalize s = map spec_fold_char (spec_unwords (spec_words s))"

text \<open>The candidate's own name fields: \<open>trackName\<close>, falling back to \<open>name\<close> when
  \<open>trackName\<close> is absent (an empty string counts as absent), and \<open>artistName\<close>.\<close>

definition spec_candidate_title :: "candidate \<Rightarrow> string" where
  "spec_candidate_title r =
     (case trackName r of
        Some (c # cs) \<Rightarrow> c # cs
      | _ \<Rightarrow> (case name r of Some n \<Rightarrow> n | None \<Rightarrow> []))"

definition spec_candidate_artist :: "candidate \<Rightarrow> string" where
  "spec_candidate_artist r = (case artistName r of Some a \<Rightarrow> a | None \<Rightarrow> [])"

text \<open>Score 2 if normalized title equality and normalized artist equality both hold,
  1 if exactly one holds, 0 otherwise; an absent or empty normalized query field never
  matches.\<close>

definition spec_title_eq :: "string option \<Rightarrow> candidate \<Rightarrow> bool" where
  "spec_title_eq title r =
     (case title of
        None \<Rightarrow> False
      | Some t \<Rightarrow> spec_normalize t \<noteq> [] \<and>
                  spec_normalize (spec_candidate_title r) = spec_normalize t)"

definition spec_artist_eq :: "string option \<Rightarrow> candidate \<Rightarrow> bool" where
  "spec_artist_eq artist r =
     (case artist of
        None \<Rightarrow> False
      | Some a \<Rightarrow> spec_normalize a \<noteq> [] \<and>
                  spec_normalize (spec_candidate_artist r) = spec_normalize a)"

definition spec_score :: "string option \<Rightarrow> string option \<Rightarrow> candidate \<Rightarrow> nat" where
  "spec_score title artist r =
     (if spec_title_eq title r \<and> spec_artist_eq artist r then 2
      else if spec_title_eq title r \<noteq> spec_artist_eq artist r then 1
      else 0)"

text \<open>The tag-derived value if present and non-empty, otherwise the inferred value.\<close>

definition spec_prefer :: "string option \<Rightarrow> string option \<Rightarrow> string option" where
  "spec_prefer tag inferred = (case tag of Some (c # cs) \<Rightarrow> Some (c # cs) | _ \<Rightarrow> inferred)"

text \<open>What the tag reader supplies for a key: nothing when reading raised or gave no
  file object, the source's \<open>first(key)\<close> otherwise.\<close>

definition tag_field :: "py_error + audio_file option \<Rightarrow> string \<Rightarrow> string option" where
  "tag_field outcome key =
     (case outcome of Inr (Some a) \<Rightarrow> first (tags_or_empty a) key | _ \<Rightarrow> None)"

text \<open>A field that is present and contains at least one non-whitespace character.\<close>

definition spec_has_text :: "string option \<Rightarrow> bool" where
  "spec_has_text x = (case x of None \<Rightarrow> False | Some s \<Rightarrow> list_ex (\<lambda>c. \<not> is_space c) s)"

definition spec_materialize :: "candidate \<Rightarrow> string option \<times> bool" where
  "spec_materialize c =
     (if instrumental c = Some True then (None, False)
      else if spec_has_text (syncedLyrics c) then (syncedLyrics c, True)
      else if spec_has_text (plainLyrics c) then (plainLyrics c, False)
      else (None, False))"

text \<open>A non-blank line gets the zero-timestamp marker, a blank line becomes empty.\<close>

definition spec_stamp :: "string \<Rightarrow> string" where
  "spec_stamp line = (if list_ex (\<lambda>c. \<not> is_space c) line then ''[00:00.00] '' @ line else [])"

text \<open>Trailing whitespace trimmed, lines joined with newline, and the rendering of a
  list of lines: each line stamped, joined, trimmed, one newline appended.\<close>

fun spec_trim_right :: "string \<Rightarrow> string" where
  "spec_trim_right [] = []"
| "spec_trim_right (c # cs) =
     (case spec_trim_right cs of
        [] \<Rightarrow> if is_space c then [] else [c]
      | t # ts \<Rightarrow> c # t # ts)"

fun spec_unlines :: "string list \<Rightarrow> string" where
  "spec_unlines [] = []"
| "spec_unlines [l] = l"
| "spec_unlines (l # m # ms) = l @ CHR 0x0A # spec_unlines (m # ms)"

definition spec_render_lines :: "string list \<Rightarrow> string" where
  "spec_render_lines ls = spec_trim_right (spec_unlines (map spec_stamp ls)) @ [CHR 0x0A]"

text \<open>The text split at the newline character only, and its rendering.\<close>

fun spec_split_newline :: "string \<Rightarrow> string list" where
  "spec_split_newline [] = [[]]"
| "spec_split_newline (c # cs) =
     (if c = CHR 0x0A then [] # spec_split_newline cs
      else (case spec_split_newline cs of
              [] \<Rightarrow> [[c]]
            | l # ls \<Rightarrow> (c # l) # ls))"

definition spec_render_newline :: "string \<Rightarrow> string" where
  "spec_render_newline text = spec_render_lines (spec_split_newline text)"





section \<open>Auxiliary facts about strings\<close>

lemma rstrip_Nil_iff: "rstrip s = [] \<longleftrightarrow> (\<forall>c\<in>set s. is_space c)"
  by (simp add: rstrip_def)

lemma strip_Nil_iff: "strip s = [] \<longleftrightarrow> (\<forall>c\<in>set s. is_space c)"
proof
  assume "strip s = []"
  then have all: "\<forall>c\<in>set (dropWhile is_space s). is_space c"
    by (simp add: strip_def rstrip_Nil_iff lstrip_def)
  have "dropWhile is_space s = []"
  proof (rule ccontr)
    assume ne: "dropWhile is_space s \<noteq> []"
    then have "\<not> is_space (hd (dropWhile is_space s))" by (rule hd_dropWhile)
    moreover have "hd (dropWhile is_space s) \<in> set (dropWhile is_space s)" using ne by simp
    ultimately show False using all by blast
  qed
  then show "\<forall>c\<in>set s. is_space c" by simp
next
  assume a: "\<forall>c\<in>set s. is_space c"
  have "dropWhile is_space s = []" using a by simp
  then have "lstrip s = []" by (simp only: lstrip_def)
  then show "strip s = []" by (simp add: strip_def rstrip_def)
qed


lemma split_once_two:
  "sep \<noteq> [] \<Longrightarrow> str_contains sep s \<Longrightarrow> \<exists>a b. split_once sep s = [a, b]"
  by (induction s) (auto split: list.splits)

section \<open>infer_from_path: results\<close>

text \<open>The unpacking of the split never fails: the function always returns a triple.\<close>

lemma infer_from_path_total: "\<exists>r. infer_from_path p root = Inr r"
proof (cases "str_contains '' - '' (replace_underscore (stem_of p))")
  case True
  then obtain a b where "split_once '' - '' (replace_underscore (stem_of p)) = [a, b]"
    using split_once_two [of "'' - ''"] by blast
  then show ?thesis
    by (simp add: infer_from_path_def Let_def)
next
  case False
  then show ?thesis
    by (simp add: infer_from_path_def Let_def)
qed

lemma rel_parts_under_root:
  "(case relative_to (root @ ps) root of Inr qs \<Rightarrow> qs | Inl e \<Rightarrow> root @ ps) = ps"
  by (cases root) (auto simp: relative_to_def is_absolute_def split: list.splits)

text \<open>Whatever lies under the root, its first relative part is the artist; a file
  directly under the root is that part itself.\<close>

lemma infer_from_path_artist_first_part:
  assumes "f \<noteq> []"
  shows "inferred_artist (infer_from_path (root @ f # rest) root) = Some f"
  using assms
  by (simp add: infer_from_path_def Let_def rel_parts_under_root inferred_artist_def
      or_none_def truthy_def)

text \<open>
  C1. A file directly under the library root, named \<open>Artist Name - Song Title.ext\<close>:
  the claim expects the artist \<open>Artist Name\<close> and the title \<open>Song Title\<close>. The source
  takes the first relative part as the artist, and for such a file that part is the
  file name itself; the artist is then set, the split on \<open>" - "\<close> is skipped, and the
  result is the file name as artist and the whole stem as title. The same holds for the
  one-segment relative path with an empty root.
\<close>

theorem infer_from_path_root_level_file:
  "infer_from_path [''/'', ''music'', ''Artist Name - Song Title.ext''] [''/'', ''music''] =
     Inr (Some ''Artist Name - Song Title.ext'', Some ''Artist Name - Song Title'', None) \<and>
   infer_from_path [''Artist Name - Song Title.ext''] [] =
     Inr (Some ''Artist Name - Song Title.ext'', Some ''Artist Name - Song Title'', None)"
  by code_simp

text \<open>
  C2. The titles inferred for \<open>01 - Song Name.ext\<close>, \<open>01.Song Name.ext\<close> and
  \<open>01_Song Name.ext\<close>: the first two give \<open>Song Name\<close>. In the third the underscore
  has become a blank before the track-number pattern is tried, the pattern finds no
  separator after the digits, and the title keeps the number: \<open>01 Song Name\<close>.
\<close>

theorem infer_from_path_track_number_titles:
  "inferred_title (infer_from_path [''artist'', ''album'', ''01 - Song Name.ext''] []) =
     Some ''Song Name'' \<and>
   inferred_title (infer_from_path [''artist'', ''album'', ''01.Song Name.ext''] []) =
     Some ''Song Name'' \<and>
   inferred_title (infer_from_path [''artist'', ''album'', ''01_Song Name.ext''] []) =
     Some ''01 Song Name''"
  by code_simp

lemma decimal_not_space: "is_decimal x \<Longrightarrow> \<not> is_space x"
  by (auto simp: is_decimal_def is_space_def)

lemma match_cd_shape:
  assumes "c = CHR ''c'' \<or> c = CHR ''C''" and "d = CHR ''d'' \<or> d = CHR ''D''"
    and ws: "\<forall>x\<in>set ws. is_space x" and ne: "ds \<noteq> []" and ds: "\<forall>x\<in>set ds. is_decimal x"
  shows "match_cd (c # d # ws @ ds)"
proof -
  have "dropWhile is_space (ws @ ds) = dropWhile is_space ds"
    using ws by (simp add: dropWhile_append2)
  also have "\<dots> = ds"
    using ne ds by (cases ds) (auto dest: decimal_not_space)
  finally have r1: "dropWhile is_space (ws @ ds) = ds" .
  have tw: "takeWhile is_decimal ds = ds" using ds by simp
  have dw: "dropWhile is_decimal ds = []" using ds by simp
  show ?thesis
    using assms(1,2) ne by (simp only: match_cd_def list.case Let_def r1 tw dw at_dollar_def) simp
qed

lemma infer_from_path_album_rel:
  assumes rel: "(case relative_to p root of Inr qs \<Rightarrow> qs | Inl e \<Rightarrow> p) = a # b # seg # rest"
  shows "inferred_album (infer_from_path p root) =
     (if match_cd seg then Some (b @ '' '' @ seg) else or_none (Some b))"
proof (cases "str_contains '' - '' (replace_underscore (stem_of p))")
  case True
  then obtain x y where "split_once '' - '' (replace_underscore (stem_of p)) = [x, y]"
    using split_once_two [of "'' - ''"] by blast
  then show ?thesis
    by (simp add: infer_from_path_def Let_def rel inferred_album_def or_none_def truthy_def)
next
  case False
  then show ?thesis
    by (simp add: infer_from_path_def Let_def rel inferred_album_def or_none_def truthy_def)
qed

lemma infer_from_path_album:
  "inferred_album (infer_from_path (root @ a # b # seg # rest) root) =
     (if match_cd seg then Some (b @ '' '' @ seg) else or_none (Some b))"
  by (rule infer_from_path_album_rel) (rule rel_parts_under_root)

text \<open>
  C8 as stated: for \<open>artist/album/cd2/song.ext\<close> the inferred album would be
  \<open>album CD2\<close>. The source appends the segment as it is written in the path, so the
  album is \<open>album cd2\<close>.
\<close>

theorem infer_from_path_cd2_not_uppercased:
  "inferred_album (infer_from_path [''artist'', ''album'', ''cd2'', ''song.ext''] []) \<noteq>
     Some ''album CD2''"
  by code_simp

text \<open>
  C8, amended. For every path \<open>artist/album/disc/song\<close> under the library root whose
  third segment is \<open>c\<close> or \<open>C\<close>, then \<open>d\<close> or \<open>D\<close>, then any whitespace, then one or
  more digits, the inferred album is the second segment, one blank, and the third
  segment exactly as it is written in the path. In particular \<open>artist/album/cd2/song.ext\<close>
  gives \<open>album cd2\<close> and \<open>artist/album/CD2/song.ext\<close> gives \<open>album CD2\<close>.
\<close>

theorem infer_from_path_disc_album:
  assumes "c = CHR ''c'' \<or> c = CHR ''C''" and "d = CHR ''d'' \<or> d = CHR ''D''"
    and "\<forall>x\<in>set ws. is_space x" and "ds \<noteq> []" and "\<forall>x\<in>set ds. is_decimal x"
  shows "inferred_album (infer_from_path (root @ [artist, album, c # d # ws @ ds, song]) root) =
           Some (album @ '' '' @ c # d # ws @ ds) \<and>
         inferred_album (infer_from_path [''artist'', ''album'', ''cd2'', ''song.ext''] []) =
           Some ''album cd2'' \<and>
         inferred_album (infer_from_path [''artist'', ''album'', ''CD2'', ''song.ext''] []) =
           Some ''album CD2''"
proof -
  have "match_cd (c # d # ws @ ds)" using assms by (rule match_cd_shape)
  then have "inferred_album (infer_from_path (root @ [artist, album, c # d # ws @ ds, song]) root) =
           Some (album @ '' '' @ c # d # ws @ ds)"
    using infer_from_path_album [of root artist album "c # d # ws @ ds" "[song]"] by simp
  moreover have "inferred_album (infer_from_path [''artist'', ''album'', ''cd2'', ''song.ext''] []) =
           Some ''album cd2''" by code_simp
  moreover have "inferred_album (infer_from_path [''artist'', ''album'', ''CD2'', ''song.ext''] []) =
           Some ''album CD2''" by code_simp
  ultimately show ?thesis by blast
qed

theorem infer_from_path_disc_album_witness:
  "is_space CHR '' '' \<and> is_decimal CHR ''1'' \<and> is_decimal CHR ''2'' \<and>
   inferred_album
     (infer_from_path ([''/'', ''music''] @ [''Artist'', ''Album'', ''Cd 12'', ''song.flac''])
        [''/'', ''music'']) = Some ''Album Cd 12''"
  using infer_from_path_disc_album [of "CHR ''C''" "CHR ''d''" "'' ''" "''12''"
      "[''/'', ''music'']" "''Artist''" "''Album''" "''song.flac''"]
  by (simp add: is_space_def is_decimal_def)

section \<open>choose_best_result: results\<close>

text \<open>The source's lower-casing is the fold of the table.\<close>

lemma fold_capitals:
  "list_all (\<lambda>p. lower_char (fst p) = snd p) (zip spec_capitals spec_smalls)"
  by code_simp

lemma capitals_ascii: "list_all (\<lambda>n. char_of n \<in> set spec_capitals) [65..<91]"
  by code_simp

lemma capitals_latin: "list_all (\<lambda>n. n = 215 \<or> char_of n \<in> set spec_capitals) [192..<223]"
  by code_simp

lemma lower_char_fold: "lower_char c = spec_fold_char c"
proof (cases "c \<in> set spec_capitals")
  case True
  have len: "length spec_capitals = length spec_smalls"
    by (simp add: spec_capitals_def spec_smalls_def)
  then have "map fst (zip spec_capitals spec_smalls) = spec_capitals" by simp
  then have "c \<in> fst ` set (zip spec_capitals spec_smalls)"
    using True by (metis set_map)
  then obtain l where l: "map_of (zip spec_capitals spec_smalls) c = Some l"
    by (metis map_of_eq_None_iff not_None_eq)
  then have "(c, l) \<in> set (zip spec_capitals spec_smalls)" by (rule map_of_SomeD)
  with fold_capitals have "lower_char (fst (c, l)) = snd (c, l)"
    unfolding list_all_iff by blast
  then have "lower_char c = l" by simp
  then show ?thesis using l by (simp add: spec_fold_char_def)
next
  case False
  have len: "length spec_capitals = length spec_smalls"
    by (simp add: spec_capitals_def spec_smalls_def)
  then have "map fst (zip spec_capitals spec_smalls) = spec_capitals" by simp
  then have "c \<notin> fst ` set (zip spec_capitals spec_smalls)"
    using False by (metis set_map)
  then have none: "map_of (zip spec_capitals spec_smalls) c = None"
    by (simp add: map_of_eq_None_iff)
  let ?n = "of_char c :: nat"
  have c: "char_of ?n = c" by simp
  have "\<not> (65 \<le> ?n \<and> ?n \<le> 90)"
  proof
    assume "65 \<le> ?n \<and> ?n \<le> 90"
    then have "?n \<in> {65..<91}" by simp
    then have "?n \<in> set [65..<91]" by (simp only: set_upt)
    with capitals_ascii have "char_of ?n \<in> set spec_capitals"
      unfolding list_all_iff by blast
    then show False using False c by simp
  qed
  moreover have "\<not> (192 \<le> ?n \<and> ?n \<le> 222 \<and> ?n \<noteq> 215)"
  proof
    assume a: "192 \<le> ?n \<and> ?n \<le> 222 \<and> ?n \<noteq> 215"
    then have "?n \<in> {192..<223}" by simp
    then have "?n \<in> set [192..<223]" by (simp only: set_upt)
    with capitals_latin have "?n = 215 \<or> char_of ?n \<in> set spec_capitals"
      unfolding list_all_iff by blast
    then show False using False c a by simp
  qed
  ultimately have "lower_char c = c" by (auto simp: lower_char_def Let_def)
  then show ?thesis using none by (simp add: spec_fold_char_def)
qed

text \<open>\<open>re.sub\<close>, \<open>strip\<close> and \<open>lower\<close> together give the words of the text, joined by
  single blanks and folded.\<close>

lemma sub_ws_word:
  "sub_ws cs = takeWhile (\<lambda>x. \<not> is_space x) cs @ sub_ws (dropWhile (\<lambda>x. \<not> is_space x) cs)"
proof (induction cs)
  case Nil
  show ?case by simp
next
  case (Cons x xs)
  show ?case
  proof (cases "is_space x")
    case True
    then show ?thesis by (simp del: sub_ws.simps)
  next
    case False
    then have "sub_ws (x # xs) = x # sub_ws xs" by simp
    also have "\<dots> = x # takeWhile (\<lambda>x. \<not> is_space x) xs @
        sub_ws (dropWhile (\<lambda>x. \<not> is_space x) xs)"
      using Cons.IH by simp
    finally show ?thesis using False by (simp del: sub_ws.simps)
  qed
qed

lemma sub_ws_space:
  "is_space c \<Longrightarrow>
     sub_ws (c # cs) = (if cs \<noteq> [] \<and> is_space (hd cs) then sub_ws cs else CHR '' '' # sub_ws cs)"
  by (cases cs) simp_all

lemma spec_words_Nil_iff: "spec_words s = [] \<longleftrightarrow> (\<forall>x\<in>set s. is_space x)"
  by (induction s rule: spec_words.induct) simp_all

lemma spec_words_clean:
  "\<forall>w\<in>set (spec_words s). w \<noteq> [] \<and> (\<forall>x\<in>set w. \<not> is_space x)"
proof (induction s rule: spec_words.induct)
  case 1
  show ?case by simp
next
  case (2 c cs)
  show ?case
  proof (cases "is_space c")
    case True
    with 2(1) show ?thesis by simp
  next
    case False
    have tw: "\<forall>x\<in>set (takeWhile (\<lambda>x. \<not> is_space x) cs). \<not> is_space x"
      using set_takeWhileD by fastforce
    from 2(2) [OF False] have ih: "\<forall>w\<in>set (spec_words (dropWhile (\<lambda>x. \<not> is_space x) cs)).
        w \<noteq> [] \<and> (\<forall>x\<in>set w. \<not> is_space x)" .
    have eq: "spec_words (c # cs) = (c # takeWhile (\<lambda>x. \<not> is_space x) cs) #
        spec_words (dropWhile (\<lambda>x. \<not> is_space x) cs)"
      using False by simp
    show ?thesis
    proof
      fix w assume "w \<in> set (spec_words (c # cs))"
      then have "w = c # takeWhile (\<lambda>x. \<not> is_space x) cs \<or>
          w \<in> set (spec_words (dropWhile (\<lambda>x. \<not> is_space x) cs))"
        unfolding eq by (simp only: set_simps insert_iff)
      then show "w \<noteq> [] \<and> (\<forall>x\<in>set w. \<not> is_space x)"
      proof
        assume "w = c # takeWhile (\<lambda>x. \<not> is_space x) cs"
        then show ?thesis using tw False by (simp only: set_simps ball_simps) blast
      next
        assume "w \<in> set (spec_words (dropWhile (\<lambda>x. \<not> is_space x) cs))"
        with ih show ?thesis by blast
      qed
    qed
  qed
qed

lemma spec_unwords_clean:
  assumes "\<forall>w\<in>set ws. w \<noteq> [] \<and> (\<forall>x\<in>set w. \<not> is_space x)" and "ws \<noteq> []"
  shows "spec_unwords ws \<noteq> [] \<and> \<not> is_space (hd (spec_unwords ws)) \<and>
         \<not> is_space (last (spec_unwords ws))"
  using assms
proof (induction ws rule: spec_unwords.induct)
  case 1
  then show ?case by simp
next
  case (2 w)
  then show ?case by (cases w) auto
next
  case (3 w v vs)
  then have "spec_unwords (v # vs) \<noteq> []" and "\<not> is_space (last (spec_unwords (v # vs)))"
    by simp_all
  moreover have "w \<noteq> []" and "\<not> is_space (hd w)" using 3(2) by (cases w; simp)+
  ultimately show ?case by (simp add: hd_append)
qed

lemma strip_padded:
  assumes pre: "\<forall>x\<in>set pre. is_space x" and post: "\<forall>x\<in>set post. is_space x"
    and u: "u = [] \<or> (\<not> is_space (hd u) \<and> \<not> is_space (last u))"
  shows "strip (pre @ u @ post) = u"
proof (cases "u = []")
  case True
  then show ?thesis using pre post by (auto simp: strip_Nil_iff)
next
  case False
  then obtain a as where a: "u = a # as" by (cases u) auto
  have hd: "\<not> is_space a" using u False a by simp
  have "lstrip (pre @ u @ post) = dropWhile is_space (u @ post)"
    using pre by (simp add: lstrip_def dropWhile_append2)
  also have "\<dots> = u @ post" using hd a by simp
  finally have l: "lstrip (pre @ u @ post) = u @ post" .
  have "rev u \<noteq> []" and "\<not> is_space (hd (rev u))"
    using u False by (simp_all add: hd_rev)
  then have r: "dropWhile is_space (rev u) = rev u" by (cases "rev u") simp_all
  have "dropWhile is_space (rev post @ rev u) = dropWhile is_space (rev u)"
    by (rule dropWhile_append2) (use post in simp)
  then have "rstrip (u @ post) = u" using r by (simp add: rstrip_def)
  then show ?thesis using l by (simp add: strip_def)
qed

lemma sub_ws_shape:
  "sub_ws s =
     (if s \<noteq> [] \<and> is_space (hd s) then '' '' else []) @ spec_unwords (spec_words s) @
     (if spec_words s \<noteq> [] \<and> is_space (last s) then '' '' else [])"
proof (induction s rule: spec_words.induct)
  case 1
  show ?case by simp
next
  case (2 c cs)
  show ?case
  proof (cases "is_space c")
    case True
    from 2(1) [OF True] have ih: "sub_ws cs =
       (if cs \<noteq> [] \<and> is_space (hd cs) then '' '' else []) @ spec_unwords (spec_words cs) @
       (if spec_words cs \<noteq> [] \<and> is_space (last cs) then '' '' else [])" .
    have w: "spec_words (c # cs) = spec_words cs" using True by simp
    have l: "spec_words cs \<noteq> [] \<Longrightarrow> last (c # cs) = last cs"
      by (cases cs) simp_all
    have "sub_ws (c # cs) = '' '' @ spec_unwords (spec_words cs) @
       (if spec_words cs \<noteq> [] \<and> is_space (last cs) then '' '' else [])"
    proof (cases "cs \<noteq> [] \<and> is_space (hd cs)")
      case True
      then have "sub_ws (c # cs) = sub_ws cs"
        using \<open>is_space c\<close> by (simp add: sub_ws_space del: sub_ws.simps)
      then show ?thesis using ih True by (simp del: sub_ws.simps)
    next
      case False
      then have "sub_ws (c # cs) = CHR '' '' # sub_ws cs"
        using \<open>is_space c\<close> by (simp add: sub_ws_space del: sub_ws.simps)
      then show ?thesis using ih False by (simp del: sub_ws.simps)
    qed
    then show ?thesis using True w l
      by (cases "cs = []") (simp_all del: sub_ws.simps spec_words.simps(2))
  next
    case False
    let ?w = "c # takeWhile (\<lambda>x. \<not> is_space x) cs"
    let ?r = "dropWhile (\<lambda>x. \<not> is_space x) cs"
    from 2(2) [OF False] have ih: "sub_ws ?r =
       (if ?r \<noteq> [] \<and> is_space (hd ?r) then '' '' else []) @ spec_unwords (spec_words ?r) @
       (if spec_words ?r \<noteq> [] \<and> is_space (last ?r) then '' '' else [])" .
    have w: "spec_words (c # cs) = ?w # spec_words ?r" using False by simp
    have s: "sub_ws (c # cs) = ?w @ sub_ws ?r"
    proof -
      have "sub_ws (c # cs) = c # sub_ws cs" using False by simp
      also have "sub_ws cs = takeWhile (\<lambda>x. \<not> is_space x) cs @ sub_ws ?r" by (rule sub_ws_word)
      finally show ?thesis by simp
    qed
    have split: "c # cs = ?w @ ?r" by simp
    show ?thesis
    proof (cases "?r = []")
      case True
      have "\<forall>x\<in>set ?w. \<not> is_space x" using False set_takeWhileD by fastforce
      then have "\<not> is_space (last ?w)" using last_in_set [of ?w] by blast
      moreover have "last (c # cs) = last ?w" using split True by (metis append_Nil2)
      moreover have "sub_ws (c # cs) = ?w" using s True by simp
      moreover have "spec_words (c # cs) = [?w]" using w True by simp
      ultimately show ?thesis using False by (simp del: sub_ws.simps spec_words.simps)
    next
      case ne: False
      then have sp: "is_space (hd ?r)" using hd_dropWhile [of "\<lambda>x. \<not> is_space x" cs] by simp
      have lr: "last (c # cs) = last ?r" using split ne by (metis last_appendR)
      show ?thesis
      proof (cases "spec_words ?r")
        case Nil
        then have "\<forall>x\<in>set ?r. is_space x" by (simp only: spec_words_Nil_iff)
        then have "is_space (last ?r)" using ne last_in_set by blast
        moreover have "sub_ws (c # cs) = ?w @ '' ''" using s ih ne sp Nil by simp
        moreover have "spec_words (c # cs) = [?w]" using w Nil by simp
        ultimately show ?thesis using False lr by (simp del: sub_ws.simps spec_words.simps)
      next
        case (Cons v vs)
        have "sub_ws (c # cs) = ?w @ '' '' @ spec_unwords (v # vs) @
            (if is_space (last ?r) then '' '' else [])"
          using s ih ne sp Cons by simp
        moreover have "spec_words (c # cs) = ?w # v # vs" using w Cons by simp
        ultimately show ?thesis using False lr by (simp del: sub_ws.simps spec_words.simps)
      qed
    qed
  qed
qed

lemma normalize_str_spec: "normalize_str s = spec_normalize s"
proof -
  let ?u = "spec_unwords (spec_words s)"
  have clean: "?u = [] \<or> (\<not> is_space (hd ?u) \<and> \<not> is_space (last ?u))"
  proof (cases "spec_words s = []")
    case True
    then show ?thesis by simp
  next
    case False
    with spec_unwords_clean [OF spec_words_clean [of s]] show ?thesis by blast
  qed
  have blank: "is_space CHR '' ''" by (simp add: is_space_def)
  have "strip ((if s \<noteq> [] \<and> is_space (hd s) then '' '' else []) @ ?u @
     (if spec_words s \<noteq> [] \<and> is_space (last s) then '' '' else [])) = ?u"
    using clean by (intro strip_padded) (simp_all add: blank)
  then have "strip (sub_ws s) = ?u" by (simp only: sub_ws_shape [symmetric])
  moreover have "lower = map spec_fold_char"
    by (rule ext) (simp add: lower_def lower_char_fold)
  ultimately show ?thesis by (simp add: normalize_str_def spec_normalize_def)
qed

lemma r_title_spec: "r_title r = spec_normalize (spec_candidate_title r)"
proof -
  have "or_empty (py_or (py_or (trackName r) (name r)) (Some [])) = spec_candidate_title r"
    by (auto simp: or_empty_def py_or_def truthy_def spec_candidate_title_def
        split: option.splits list.splits)
  then show ?thesis by (simp add: r_title_def normalize_str_spec)
qed

lemma r_artist_spec: "r_artist r = spec_normalize (spec_candidate_artist r)"
proof -
  have "or_empty (py_or (artistName r) (Some [])) = spec_candidate_artist r"
    by (auto simp: or_empty_def py_or_def truthy_def spec_candidate_artist_def
        split: option.splits list.splits)
  then show ?thesis by (simp add: r_artist_def normalize_str_spec)
qed

lemma spec_normalize_Nil: "spec_normalize [] = []"
  by (simp add: spec_normalize_def)

lemma title_match_spec:
  "(normalize_str (or_empty title) \<noteq> [] \<and> r_title r = normalize_str (or_empty title)) =
     spec_title_eq title r"
  by (cases title)
     (simp_all add: or_empty_def spec_title_eq_def normalize_str_spec r_title_spec
        spec_normalize_Nil)

lemma artist_match_spec:
  "(normalize_str (or_empty artist) \<noteq> [] \<and> r_artist r = normalize_str (or_empty artist)) =
     spec_artist_eq artist r"
  by (cases artist)
     (simp_all add: or_empty_def spec_artist_eq_def normalize_str_spec r_artist_spec
        spec_normalize_Nil)

text \<open>The source's score, computed from the normalized query, is the specification's
  score.\<close>

lemma score_of_spec:
  "score_of (normalize_str (or_empty title)) (normalize_str (or_empty artist)) r =
     spec_score title artist r"
proof -
  have "score_of (normalize_str (or_empty title)) (normalize_str (or_empty artist)) r =
      (if spec_title_eq title r \<and> spec_artist_eq artist r then 2
       else if spec_title_eq title r \<or> spec_artist_eq artist r then 1 else 0)"
    by (simp only: score_of_def Let_def title_match_spec artist_match_spec)
  then show ?thesis by (auto simp: spec_score_def)
qed

lemma best_loop_Some:
  "(best_loop nt na (Some (s0, r0)) rs = Some (s0, r0) \<and>
      (\<forall>x\<in>set rs. score_of nt na x \<le> s0)) \<or>
   (\<exists>i<length rs.
      best_loop nt na (Some (s0, r0)) rs = Some (score_of nt na (rs ! i), rs ! i) \<and>
      s0 < score_of nt na (rs ! i) \<and>
      (\<forall>x\<in>set rs. score_of nt na x \<le> score_of nt na (rs ! i)) \<and>
      (\<forall>x\<in>set (take i rs). score_of nt na x < score_of nt na (rs ! i)))"
proof (induction rs arbitrary: s0 r0)
  case Nil
  show ?case by simp
next
  case (Cons x xs)
  let ?f = "score_of nt na"
  show ?case
  proof (cases "?f x > s0")
    case True
    then have step: "best_loop nt na (Some (s0, r0)) (x # xs) = best_loop nt na (Some (?f x, x)) xs"
      by (simp add: Let_def)
    from Cons.IH [of "?f x" x] show ?thesis
    proof
      assume a: "best_loop nt na (Some (?f x, x)) xs = Some (?f x, x) \<and> (\<forall>y\<in>set xs. ?f y \<le> ?f x)"
      have "0 < length (x # xs) \<and>
          best_loop nt na (Some (s0, r0)) (x # xs) = Some (?f ((x # xs) ! 0), (x # xs) ! 0) \<and>
          s0 < ?f ((x # xs) ! 0) \<and>
          (\<forall>y\<in>set (x # xs). ?f y \<le> ?f ((x # xs) ! 0)) \<and>
          (\<forall>y\<in>set (take 0 (x # xs)). ?f y < ?f ((x # xs) ! 0))"
        using a True step by simp
      then show ?thesis by (intro disjI2 exI [of _ 0])
    next
      assume "\<exists>i<length xs. best_loop nt na (Some (?f x, x)) xs = Some (?f (xs ! i), xs ! i) \<and>
          ?f x < ?f (xs ! i) \<and> (\<forall>y\<in>set xs. ?f y \<le> ?f (xs ! i)) \<and>
          (\<forall>y\<in>set (take i xs). ?f y < ?f (xs ! i))"
      then obtain i where i: "i < length xs"
          "best_loop nt na (Some (?f x, x)) xs = Some (?f (xs ! i), xs ! i)"
          "?f x < ?f (xs ! i)" "\<forall>y\<in>set xs. ?f y \<le> ?f (xs ! i)"
          "\<forall>y\<in>set (take i xs). ?f y < ?f (xs ! i)"
        by blast
      have "Suc i < length (x # xs) \<and>
          best_loop nt na (Some (s0, r0)) (x # xs) = Some (?f ((x # xs) ! Suc i), (x # xs) ! Suc i) \<and>
          s0 < ?f ((x # xs) ! Suc i) \<and>
          (\<forall>y\<in>set (x # xs). ?f y \<le> ?f ((x # xs) ! Suc i)) \<and>
          (\<forall>y\<in>set (take (Suc i) (x # xs)). ?f y < ?f ((x # xs) ! Suc i))"
        using i True step by simp
      then show ?thesis by (intro disjI2 exI [of _ "Suc i"])
    qed
  next
    case False
    then have step: "best_loop nt na (Some (s0, r0)) (x # xs) = best_loop nt na (Some (s0, r0)) xs"
      by (simp add: Let_def)
    from Cons.IH [of s0 r0] show ?thesis
    proof
      assume a: "best_loop nt na (Some (s0, r0)) xs = Some (s0, r0) \<and> (\<forall>y\<in>set xs. ?f y \<le> s0)"
      then have "best_loop nt na (Some (s0, r0)) (x # xs) = Some (s0, r0) \<and>
          (\<forall>y\<in>set (x # xs). ?f y \<le> s0)"
        using False step by simp
      then show ?thesis by (rule disjI1)
    next
      assume "\<exists>i<length xs. best_loop nt na (Some (s0, r0)) xs = Some (?f (xs ! i), xs ! i) \<and>
          s0 < ?f (xs ! i) \<and> (\<forall>y\<in>set xs. ?f y \<le> ?f (xs ! i)) \<and>
          (\<forall>y\<in>set (take i xs). ?f y < ?f (xs ! i))"
      then obtain i where i: "i < length xs"
          "best_loop nt na (Some (s0, r0)) xs = Some (?f (xs ! i), xs ! i)"
          "s0 < ?f (xs ! i)" "\<forall>y\<in>set xs. ?f y \<le> ?f (xs ! i)"
          "\<forall>y\<in>set (take i xs). ?f y < ?f (xs ! i)"
        by blast
      have "Suc i < length (x # xs) \<and>
          best_loop nt na (Some (s0, r0)) (x # xs) = Some (?f ((x # xs) ! Suc i), (x # xs) ! Suc i) \<and>
          s0 < ?f ((x # xs) ! Suc i) \<and>
          (\<forall>y\<in>set (x # xs). ?f y \<le> ?f ((x # xs) ! Suc i)) \<and>
          (\<forall>y\<in>set (take (Suc i) (x # xs)). ?f y < ?f ((x # xs) ! Suc i))"
        using i False step by simp
      then show ?thesis by (intro disjI2 exI [of _ "Suc i"])
    qed
  qed
qed

lemma take_nth_mem: "k < i \<Longrightarrow> i < length xs \<Longrightarrow> xs ! k \<in> set (take i xs)"
proof -
  assume k: "k < i" and i: "i < length xs"
  have "k < length (take i xs)" using k i by simp
  then have "take i xs ! k \<in> set (take i xs)" by (rule nth_mem)
  then show ?thesis using k by simp
qed

lemma best_loop_first_max:
  assumes "results \<noteq> []"
  shows "\<exists>i<length results.
           best_loop nt na None results = Some (score_of nt na (results ! i), results ! i) \<and>
           (\<forall>j<length results. score_of nt na (results ! j) \<le> score_of nt na (results ! i)) \<and>
           (\<forall>j<i. score_of nt na (results ! j) < score_of nt na (results ! i))"
proof -
  let ?f = "score_of nt na"
  from assms obtain x xs where xs: "results = x # xs" by (cases results) auto
  have step: "best_loop nt na None (x # xs) = best_loop nt na (Some (?f x, x)) xs"
    by (simp add: Let_def)
  from best_loop_Some [of nt na "?f x" x xs] show ?thesis
  proof
    assume a: "best_loop nt na (Some (?f x, x)) xs = Some (?f x, x) \<and> (\<forall>y\<in>set xs. ?f y \<le> ?f x)"
    have "\<forall>j<length (x # xs). ?f ((x # xs) ! j) \<le> ?f x"
      using a by (simp add: nth_Cons')
    then have "0 < length results \<and>
           best_loop nt na None results = Some (?f (results ! 0), results ! 0) \<and>
           (\<forall>j<length results. ?f (results ! j) \<le> ?f (results ! 0)) \<and>
           (\<forall>j<0. ?f (results ! j) < ?f (results ! 0))"
      using a step xs by simp
    then show ?thesis by (intro exI [of _ 0])
  next
    assume "\<exists>i<length xs. best_loop nt na (Some (?f x, x)) xs = Some (?f (xs ! i), xs ! i) \<and>
          ?f x < ?f (xs ! i) \<and> (\<forall>y\<in>set xs. ?f y \<le> ?f (xs ! i)) \<and>
          (\<forall>y\<in>set (take i xs). ?f y < ?f (xs ! i))"
    then obtain i where i: "i < length xs"
          "best_loop nt na (Some (?f x, x)) xs = Some (?f (xs ! i), xs ! i)"
          "?f x < ?f (xs ! i)" "\<forall>y\<in>set xs. ?f y \<le> ?f (xs ! i)"
          "\<forall>y\<in>set (take i xs). ?f y < ?f (xs ! i)"
      by blast
    have le: "\<forall>j<length (x # xs). ?f ((x # xs) ! j) \<le> ?f (xs ! i)"
      using i(3,4) by (simp add: nth_Cons')
    have lt: "\<forall>j<Suc i. ?f ((x # xs) ! j) < ?f (xs ! i)"
    proof (intro allI impI)
      fix j assume j: "j < Suc i"
      show "?f ((x # xs) ! j) < ?f (xs ! i)"
      proof (cases j)
        case 0
        then show ?thesis using i(3) by simp
      next
        case (Suc k)
        then have "k < i" using j by simp
        then have "xs ! k \<in> set (take i xs)" using i(1) by (rule take_nth_mem)
        then show ?thesis using i(5) Suc by simp
      qed
    qed
    have "Suc i < length results \<and>
           best_loop nt na None results = Some (?f (results ! Suc i), results ! Suc i) \<and>
           (\<forall>j<length results. ?f (results ! j) \<le> ?f (results ! Suc i)) \<and>
           (\<forall>j<Suc i. ?f (results ! j) < ?f (results ! Suc i))"
      using i(1,2) le lt step xs by simp
    then show ?thesis by (intro exI [of _ "Suc i"])
  qed
qed


lemma choose_best_result_no_identity:
  "results \<noteq> [] \<Longrightarrow> \<not> truthy title \<Longrightarrow> \<not> truthy artist \<Longrightarrow>
     choose_best_result results title artist = Some (results ! 0)"
  by (cases results) (simp_all add: choose_best_result_def)

lemma choose_best_result_index:
  assumes ne: "results \<noteq> []" and id: "truthy title \<or> truthy artist"
  shows "\<exists>i<length results.
           choose_best_result results title artist = Some (results ! i) \<and>
           (\<forall>j<length results.
              spec_score title artist (results ! j) \<le> spec_score title artist (results ! i)) \<and>
           (\<forall>j<i. spec_score title artist (results ! j) < spec_score title artist (results ! i))"
proof -
  let ?nt = "normalize_str (or_empty title)" and ?na = "normalize_str (or_empty artist)"
  from best_loop_first_max [OF ne, of ?nt ?na] obtain i where i: "i < length results"
      "best_loop ?nt ?na None results = Some (score_of ?nt ?na (results ! i), results ! i)"
      "\<forall>j<length results. score_of ?nt ?na (results ! j) \<le> score_of ?nt ?na (results ! i)"
      "\<forall>j<i. score_of ?nt ?na (results ! j) < score_of ?nt ?na (results ! i)"
    by blast
  from ne obtain x xs where xs: "results = x # xs" by (cases results) auto
  have "choose_best_result results title artist = Some (results ! i)"
    using id i(2) unfolding xs by (auto simp: choose_best_result_def Let_def)
  then have "i < length results \<and>
           choose_best_result results title artist = Some (results ! i) \<and>
           (\<forall>j<length results.
              spec_score title artist (results ! j) \<le> spec_score title artist (results ! i)) \<and>
           (\<forall>j<i. spec_score title artist (results ! j) < spec_score title artist (results ! i))"
    using i(1,3,4) by (simp add: score_of_spec)
  then show ?thesis by (intro exI [of _ i])
qed

lemma spec_score_no_identity:
  "\<not> truthy title \<Longrightarrow> \<not> truthy artist \<Longrightarrow> spec_score title artist r = 0"
proof -
  assume "\<not> truthy title" and "\<not> truthy artist"
  then have "title = None \<or> title = Some []" and "artist = None \<or> artist = Some []"
    by (auto simp: truthy_def split: option.splits)
  then have "\<not> spec_title_eq title r" and "\<not> spec_artist_eq artist r"
    by (auto simp: spec_title_eq_def spec_artist_eq_def spec_normalize_Nil)
  then show ?thesis by (simp add: spec_score_def)
qed

lemma choose_best_result_index_all:
  assumes ne: "results \<noteq> []"
  shows "\<exists>i<length results.
           choose_best_result results title artist = Some (results ! i) \<and>
           (\<forall>j<length results.
              spec_score title artist (results ! j) \<le> spec_score title artist (results ! i)) \<and>
           (\<forall>j<i. spec_score title artist (results ! j) < spec_score title artist (results ! i))"
proof (cases "truthy title \<or> truthy artist")
  case True
  with ne show ?thesis by (rule choose_best_result_index)
next
  case False
  then have "0 < length results \<and>
           choose_best_result results title artist = Some (results ! 0) \<and>
           (\<forall>j<length results.
              spec_score title artist (results ! j) \<le> spec_score title artist (results ! 0)) \<and>
           (\<forall>j<0. spec_score title artist (results ! j) < spec_score title artist (results ! 0))"
    using ne by (simp add: choose_best_result_no_identity spec_score_no_identity)
  then show ?thesis by (intro exI [of _ 0])
qed

text \<open>
  C3. For a non-empty candidate list, each candidate gets the score 2 when its
  normalized title and its normalized artist both equal the query's, 1 when exactly one
  does, 0 otherwise, an empty normalized query field never matching; the selector
  returns the candidate at the first position whose score is the highest: no candidate
  scores more, and every earlier candidate scores strictly less. The source computes
  that score whenever the title or the artist is non-empty; with neither, every score is
  0 and the candidate returned is the first.
\<close>

theorem choose_best_result_highest_first:
  assumes "results \<noteq> []"
  shows "(\<forall>r. score_of (normalize_str (or_empty title)) (normalize_str (or_empty artist)) r =
              spec_score title artist r) \<and>
         (\<exists>i<length results.
           choose_best_result results title artist = Some (results ! i) \<and>
           (\<forall>j<length results.
              spec_score title artist (results ! j) \<le> spec_score title artist (results ! i)) \<and>
           (\<forall>j<i. spec_score title artist (results ! j) < spec_score title artist (results ! i)))"
  using choose_best_result_index_all [OF assms] by (simp add: score_of_spec)

theorem choose_best_result_highest_first_witness:
  "choose_best_result
       [\<lparr>trackName = Some ''A'', name = None, artistName = Some ''X'', instrumental = None,
          syncedLyrics = None, plainLyrics = None\<rparr>,
        \<lparr>trackName = Some ''B'', name = None, artistName = Some ''Y'', instrumental = None,
          syncedLyrics = None, plainLyrics = None\<rparr>] (Some ''b'') (Some '' y'') =
     Some \<lparr>trackName = Some ''B'', name = None, artistName = Some ''Y'', instrumental = None,
          syncedLyrics = None, plainLyrics = None\<rparr>"
proof -
  let ?c1 = "\<lparr>trackName = Some ''A'', name = None, artistName = Some ''X'', instrumental = None,
          syncedLyrics = None, plainLyrics = None\<rparr>"
  let ?c2 = "\<lparr>trackName = Some ''B'', name = None, artistName = Some ''Y'', instrumental = None,
          syncedLyrics = None, plainLyrics = None\<rparr>"
  have s1: "spec_score (Some ''b'') (Some '' y'') ?c1 = 0" by code_simp
  have s2: "spec_score (Some ''b'') (Some '' y'') ?c2 = 2" by code_simp
  have "[?c1, ?c2] \<noteq> []" by simp
  from choose_best_result_highest_first [OF this, of "Some ''b''" "Some '' y''"] obtain i where i: "i < length [?c1, ?c2]"
    "choose_best_result [?c1, ?c2] (Some ''b'') (Some '' y'') = Some ([?c1, ?c2] ! i)"
    "\<forall>j<length [?c1, ?c2]. spec_score (Some ''b'') (Some '' y'') ([?c1, ?c2] ! j)
        \<le> spec_score (Some ''b'') (Some '' y'') ([?c1, ?c2] ! i)"
    by blast
  have "i \<noteq> 0"
  proof
    assume "i = 0"
    with i(3) [rule_format, of 1] have "spec_score (Some ''b'') (Some '' y'') ([?c1, ?c2] ! 1)
        \<le> spec_score (Some ''b'') (Some '' y'') ([?c1, ?c2] ! 0)" by simp
    then show False by (simp add: s1 s2)
  qed
  then have "i = 1" using i(1) by simp
  then show ?thesis using i(2) by simp
qed

text \<open>
  C4. The selector returns nothing exactly when the candidate list is empty; with neither
  a title nor an artist it returns the first candidate; and when every candidate scores
  0 it still returns the first candidate.
\<close>

theorem choose_best_result_none_and_fallbacks:
  "(choose_best_result results title artist = None \<longleftrightarrow> results = []) \<and>
   (results \<noteq> [] \<and> \<not> truthy title \<and> \<not> truthy artist \<longrightarrow>
      choose_best_result results title artist = Some (results ! 0)) \<and>
   (results \<noteq> [] \<and> (\<forall>r\<in>set results. spec_score title artist r = 0) \<longrightarrow>
      choose_best_result results title artist = Some (results ! 0))"
proof (intro conjI impI)
  show "choose_best_result results title artist = None \<longleftrightarrow> results = []"
  proof (cases "results = []")
    case True
    then show ?thesis by (simp add: choose_best_result_def)
  next
    case False
    show ?thesis
    proof (cases "truthy title \<or> truthy artist")
      case True
      with False choose_best_result_index [of results title artist] show ?thesis by auto
    next
      case no: False
      with False choose_best_result_no_identity [of results title artist] show ?thesis by auto
    qed
  qed
next
  assume "results \<noteq> [] \<and> \<not> truthy title \<and> \<not> truthy artist"
  then show "choose_best_result results title artist = Some (results ! 0)"
    by (simp add: choose_best_result_no_identity)
next
  assume a: "results \<noteq> [] \<and> (\<forall>r\<in>set results. spec_score title artist r = 0)"
  show "choose_best_result results title artist = Some (results ! 0)"
  proof (cases "truthy title \<or> truthy artist")
    case True
    with a choose_best_result_index [of results title artist] obtain i where i: "i < length results"
      "choose_best_result results title artist = Some (results ! i)"
      "\<forall>j<i. spec_score title artist (results ! j) < spec_score title artist (results ! i)"
      by blast
    have "spec_score title artist (results ! i) = 0" using a i(1) by simp
    then have "i = 0" using i(3) by (cases i) auto
    then show ?thesis using i(2) by simp
  next
    case False
    with a show ?thesis by (simp add: choose_best_result_no_identity)
  qed
qed

theorem choose_best_result_none_and_fallbacks_witness:
  "choose_best_result [] None (Some ''x'') = None \<and>
   choose_best_result
       [\<lparr>trackName = Some ''A'', name = None, artistName = Some ''X'', instrumental = None,
          syncedLyrics = None, plainLyrics = None\<rparr>] None (Some []) =
     Some \<lparr>trackName = Some ''A'', name = None, artistName = Some ''X'', instrumental = None,
          syncedLyrics = None, plainLyrics = None\<rparr>"
  using choose_best_result_none_and_fallbacks [of "[]" None "Some ''x''"]
    choose_best_result_none_and_fallbacks [of
       "[\<lparr>trackName = Some ''A'', name = None, artistName = Some ''X'', instrumental = None,
          syncedLyrics = None, plainLyrics = None\<rparr>]" None "Some []"]
  by (simp add: truthy_def)

text \<open>
  C10. On a non-empty list the selector returns one of the candidates it was given, for
  every title and artist, absent or not; on the empty list it returns nothing.
\<close>

theorem choose_best_result_member:
  "(results \<noteq> [] \<longrightarrow> (\<exists>r\<in>set results. choose_best_result results title artist = Some r)) \<and>
   choose_best_result [] title artist = None"
proof (intro conjI impI)
  assume ne: "results \<noteq> []"
  show "\<exists>r\<in>set results. choose_best_result results title artist = Some r"
  proof (cases "truthy title \<or> truthy artist")
    case True
    with ne choose_best_result_index [of results title artist] obtain i where
      "i < length results" "choose_best_result results title artist = Some (results ! i)"
      by blast
    then show ?thesis using nth_mem by blast
  next
    case False
    then have "choose_best_result results title artist = Some (results ! 0)"
      using ne by (simp add: choose_best_result_no_identity)
    moreover have "results ! 0 \<in> set results" using ne by simp
    ultimately show ?thesis by blast
  qed
next
  show "choose_best_result [] title artist = None" by (simp add: choose_best_result_def)
qed

theorem choose_best_result_member_witness:
  "\<exists>r. choose_best_result
       [\<lparr>trackName = Some ''A'', name = None, artistName = Some ''X'', instrumental = None,
          syncedLyrics = None, plainLyrics = None\<rparr>] (Some ''q'') None = Some r"
  using choose_best_result_member [of
       "[\<lparr>trackName = Some ''A'', name = None, artistName = Some ''X'', instrumental = None,
          syncedLyrics = None, plainLyrics = None\<rparr>]" "Some ''q''" None]
  by simp

section \<open>get_metadata: results\<close>

lemma prefer_tag: "(if \<not> truthy tag then inferred else tag) = spec_prefer tag inferred"
  by (auto simp: truthy_def spec_prefer_def split: option.splits list.splits)

lemma get_metadata_merge:
  "\<exists>duration. get_metadata MutagenFile path library_root =
     Inr (spec_prefer (tag_field (MutagenFile path) ''artist'')
            (inferred_artist (infer_from_path path library_root)),
          spec_prefer (tag_field (MutagenFile path) ''title'')
            (inferred_title (infer_from_path path library_root)),
          spec_prefer (tag_field (MutagenFile path) ''album'')
            (inferred_album (infer_from_path path library_root)),
          duration)"
proof -
  obtain ia it ial where inf: "infer_from_path path library_root = Inr (ia, it, ial)"
    using infer_from_path_total [of path library_root] by (metis prod_cases3)
  show ?thesis
  proof (cases "MutagenFile path")
    case (Inl e)
    then show ?thesis
      by (simp add: get_metadata_def inf tag_field_def prefer_tag
          inferred_artist_def inferred_title_def inferred_album_def)
  next
    case (Inr a)
    then show ?thesis
      by (cases a) (simp_all add: get_metadata_def inf tag_field_def prefer_tag
          inferred_artist_def inferred_title_def inferred_album_def)
  qed
qed

lemma get_metadata_no_audio:
  assumes "MutagenFile path = Inl e \<or> MutagenFile path = Inr None"
  shows "get_metadata MutagenFile path library_root =
        Inr (inferred_artist (infer_from_path path library_root),
             inferred_title (infer_from_path path library_root),
             inferred_album (infer_from_path path library_root), None)"
proof -
  obtain ia it ial where inf: "infer_from_path path library_root = Inr (ia, it, ial)"
    using infer_from_path_total [of path library_root] by (metis prod_cases3)
  from assms show ?thesis
    by (auto simp: get_metadata_def inf truthy_def
          inferred_artist_def inferred_title_def inferred_album_def)
qed

text \<open>
  C5. For each of artist, title and album the resolver returns the tag-derived value
  when it is present and non-empty, and the value inferred from the path otherwise
  (which may be absent); an empty tag string counts as absent.
\<close>

theorem get_metadata_tag_precedence:
  "\<exists>duration. get_metadata MutagenFile path library_root =
     Inr (spec_prefer (tag_field (MutagenFile path) ''artist'')
            (inferred_artist (infer_from_path path library_root)),
          spec_prefer (tag_field (MutagenFile path) ''title'')
            (inferred_title (infer_from_path path library_root)),
          spec_prefer (tag_field (MutagenFile path) ''album'')
            (inferred_album (infer_from_path path library_root)),
          duration)"
  by (rule get_metadata_merge)

theorem get_metadata_tag_precedence_witness:
  "\<exists>d. get_metadata
     (\<lambda>p. Inr (Some \<lparr>tags = Some [''artist'' \<mapsto> TagList [[]], ''title'' \<mapsto> TagList [''Tagged Title'']],
                      info_length = Inr (Some 215)\<rparr>))
     [''/'', ''music'', ''Artist'', ''Album'', ''01 - Song.flac''] [''/'', ''music''] =
   Inr (Some ''Artist'', Some ''Tagged Title'', Some ''Album'', d)"
proof -
  have "infer_from_path [''/'', ''music'', ''Artist'', ''Album'', ''01 - Song.flac'']
      [''/'', ''music''] = Inr (Some ''Artist'', Some ''Song'', Some ''Album'')"
    by code_simp
  then show ?thesis
    using get_metadata_tag_precedence [of
      "\<lambda>p. Inr (Some \<lparr>tags = Some [''artist'' \<mapsto> TagList [[]], ''title'' \<mapsto> TagList [''Tagged Title'']],
                      info_length = Inr (Some 215)\<rparr>)"
      "[''/'', ''music'', ''Artist'', ''Album'', ''01 - Song.flac'']" "[''/'', ''music'']"]
    by (simp add: inferred_artist_def inferred_title_def inferred_album_def tag_field_def
        tags_or_empty_def first_def spec_prefer_def)
qed

text \<open>
  C9. The resolver always returns a result. When the tag reader raises, or recognises no
  container and returns no file object, the result is the path inference alone, with no
  duration.
\<close>

theorem get_metadata_never_raises:
  "(\<exists>r. get_metadata MutagenFile path library_root = Inr r) \<and>
   (\<forall>e. MutagenFile path = Inl e \<longrightarrow>
      get_metadata MutagenFile path library_root =
        Inr (inferred_artist (infer_from_path path library_root),
             inferred_title (infer_from_path path library_root),
             inferred_album (infer_from_path path library_root), None)) \<and>
   (MutagenFile path = Inr None \<longrightarrow>
      get_metadata MutagenFile path library_root =
        Inr (inferred_artist (infer_from_path path library_root),
             inferred_title (infer_from_path path library_root),
             inferred_album (infer_from_path path library_root), None))"
  using get_metadata_merge [of MutagenFile path library_root]
    get_metadata_no_audio [of MutagenFile path _ library_root]
  by blast

theorem get_metadata_never_raises_witness:
  "get_metadata (\<lambda>p. Inl (TagReadError ''bad header''))
     [''/'', ''music'', ''Artist'', ''Album'', ''01 - Song.flac''] [''/'', ''music''] =
   Inr (Some ''Artist'', Some ''Song'', Some ''Album'', None)"
proof -
  have "infer_from_path [''/'', ''music'', ''Artist'', ''Album'', ''01 - Song.flac'']
      [''/'', ''music''] = Inr (Some ''Artist'', Some ''Song'', Some ''Album'')"
    by code_simp
  then show ?thesis
    using get_metadata_never_raises [of "\<lambda>p. Inl (TagReadError ''bad header'')"
      "[''/'', ''music'', ''Artist'', ''Album'', ''01 - Song.flac'']" "[''/'', ''music'']"]
    by (simp add: inferred_artist_def inferred_title_def inferred_album_def)
qed

section \<open>fetch_lyrics_from_lrclib: results\<close>

lemma synced_has_text:
  "strip (or_empty (py_or x (Some []))) \<noteq> [] \<longleftrightarrow> spec_has_text x"
  by (cases x) (auto simp: or_empty_def py_or_def truthy_def spec_has_text_def strip_Nil_iff list_ex_iff)

lemma synced_text:
  "spec_has_text x \<Longrightarrow> Some (or_empty (py_or x (Some []))) = x"
  by (cases x) (auto simp: or_empty_def py_or_def truthy_def spec_has_text_def)

lemma lyrics_of_best_spec: "lyrics_of_best best = spec_materialize best"
  unfolding lyrics_of_best_def spec_materialize_def Let_def
  by (simp add: synced_has_text synced_text)

text \<open>
  C6. For the selected candidate: nothing when it is flagged instrumental, whatever its
  lyrics fields hold; otherwise the synced lyrics, flagged synced, when they contain a
  non-whitespace character, whatever the plain lyrics hold; otherwise the plain lyrics,
  flagged unsynced, when they contain a non-whitespace character; otherwise nothing.
  This is what the end of the function computes, and what the whole function returns
  once a query was sent and a candidate selected.
\<close>

theorem lyrics_of_best_materialize:
  "lyrics_of_best best = spec_materialize best \<and>
   ((truthy title \<or> truthy artist) \<and> (\<forall>q. session_get q = Inr (ResultList results)) \<and>
      choose_best_result results title artist = Some best \<longrightarrow>
    fetch_lyrics_from_lrclib session_get artist title = spec_materialize best)"
proof (intro conjI impI)
  show "lyrics_of_best best = spec_materialize best" by (rule lyrics_of_best_spec)
next
  assume a: "(truthy title \<or> truthy artist) \<and> (\<forall>q. session_get q = Inr (ResultList results)) \<and>
      choose_best_result results title artist = Some best"
  then have ne: "results \<noteq> []" by (auto simp: choose_best_result_def)
  have "fetch_lyrics_from_lrclib session_get artist title = lyrics_of_best best"
    using a ne by (auto simp: fetch_lyrics_from_lrclib_def Let_def)
  then show "fetch_lyrics_from_lrclib session_get artist title = spec_materialize best"
    by (simp add: lyrics_of_best_spec)
qed

theorem lyrics_of_best_materialize_witness:
  "fetch_lyrics_from_lrclib
     (\<lambda>q. Inr (ResultList
        [\<lparr>trackName = Some ''Song'', name = None, artistName = Some ''X'',
           instrumental = Some False, syncedLyrics = Some ''[00:01.00] la'',
           plainLyrics = Some ''la''\<rparr>]))
     None (Some ''Song'') = (Some ''[00:01.00] la'', True)"
proof -
  let ?c = "\<lparr>trackName = Some ''Song'', name = None, artistName = Some ''X'',
           instrumental = Some False, syncedLyrics = Some ''[00:01.00] la'',
           plainLyrics = Some ''la''\<rparr>"
  have sel: "choose_best_result [?c] (Some ''Song'') None = Some ?c" by code_simp
  have mat: "spec_materialize ?c = (Some ''[00:01.00] la'', True)" by code_simp
  show ?thesis
    using sel lyrics_of_best_materialize [of ?c "Some ''Song''" None
        "\<lambda>q. Inr (ResultList [?c])" "[?c]"]
    by (simp add: truthy_def mat)
qed

section \<open>make_unsynced_lrc: results\<close>


























text \<open>
  C7 as stated: the text would be split at newlines only. The source splits with
  \<open>splitlines\<close>, which also ends a line at a file separator: \<open>a\<close>, file separator,
  \<open>b\<close> renders as two stamped lines, not as one.
\<close>

theorem make_unsynced_lrc_not_newline_only:
  "make_unsynced_lrc [CHR ''a'', CHR 0x1C, CHR ''b''] \<noteq>
     spec_render_newline [CHR ''a'', CHR 0x1C, CHR ''b'']"
  by code_simp



end
